theory Spec2Isabelle
  imports Main "HOL-Library.Word"
begin

section \<open>Strings of the host language\<close>

text \<open>
  A JavaScript string is a sequence of 16-bit code units; \<open>length\<close>, \<open>trim\<close>,
  \<open>includes\<close> and the regular expressions of \<open>src/DebugGPT.tsx\<close> (none of which carries
  a flag) all work on code units. A literal of the source is written \<open>js ''...''\<close>.
\<close>

type_synonym codeunit = "16 word"

type_synonym jsstring = "codeunit list"

definition js :: "string \<Rightarrow> jsstring" where
  "js s = map of_char s"

text \<open>
  WhiteSpace and LineTerminator of ECMAScript: what \<open>String.prototype.trim\<close> strips and
  what the class \<open>\s\<close> accepts.
\<close>

definition is_space :: "codeunit \<Rightarrow> bool" where
  "is_space u =
     (u = 0x09 \<or> u = 0x0A \<or> u = 0x0B \<or> u = 0x0C \<or> u = 0x0D \<or> u = 0x20 \<or> u = 0xA0
      \<or> u = 0x1680 \<or> (0x2000 \<le> u \<and> u \<le> 0x200A) \<or> u = 0x2028 \<or> u = 0x2029
      \<or> u = 0x202F \<or> u = 0x205F \<or> u = 0x3000 \<or> u = 0xFEFF)"

definition is_line_terminator :: "codeunit \<Rightarrow> bool" where
  "is_line_terminator u = (u = 0x0A \<or> u = 0x0D \<or> u = 0x2028 \<or> u = 0x2029)"

text \<open>The class \<open>\w\<close>: \<open>[A-Za-z0-9_]\<close>.\<close>

definition is_word :: "codeunit \<Rightarrow> bool" where
  "is_word u =
     ((0x41 \<le> u \<and> u \<le> 0x5A) \<or> (0x61 \<le> u \<and> u \<le> 0x7A) \<or> (0x30 \<le> u \<and> u \<le> 0x39)
      \<or> u = 0x5F)"

definition trim :: "jsstring \<Rightarrow> jsstring" where
  "trim s = rev (dropWhile is_space (rev (dropWhile is_space s)))"

fun starts_with :: "jsstring \<Rightarrow> jsstring \<Rightarrow> bool" where
  "starts_with s [] = True"
| "starts_with [] (c # t) = False"
| "starts_with (x # s) (c # t) = (if x = c then starts_with s t else False)"

text \<open>\<open>s.includes(t)\<close>: \<open>t\<close> occurs in \<open>s\<close> as a contiguous run of code units.\<close>

fun str_includes :: "jsstring \<Rightarrow> jsstring \<Rightarrow> bool" where
  "str_includes [] t = (t = [])"
| "str_includes (x # s) t = (if starts_with (x # s) t then True else str_includes s t)"

text \<open>\<open>code.split("\n")\<close>.\<close>

fun split_nl :: "jsstring \<Rightarrow> jsstring list" where
  "split_nl [] = [[]]"
| "split_nl (c # cs) =
     (if c = 0x0A then [] # split_nl cs
      else (case split_nl cs of [] \<Rightarrow> [[c]] | h # t \<Rightarrow> (c # h) # t))"

text \<open>
  \<open>Array.prototype.findIndex\<close>: the index of the first element that satisfies the
  predicate, and \<open>-1\<close> when there is none.
\<close>

fun findIndex_from :: "nat \<Rightarrow> ('a \<Rightarrow> bool) \<Rightarrow> 'a list \<Rightarrow> int" where
  "findIndex_from k P [] = - 1"
| "findIndex_from k P (x # xs) = (if P x then int k else findIndex_from (Suc k) P xs)"

definition findIndex :: "('a \<Rightarrow> bool) \<Rightarrow> 'a list \<Rightarrow> int" where
  "findIndex P xs = findIndex_from 0 P xs"

text \<open>A non-negative integer inside a template literal: its decimal digits.\<close>

fun show_nat :: "nat \<Rightarrow> jsstring" where
  "show_nat n =
     (if n < 10 then [of_nat (48 + n)]
      else show_nat (n div 10) @ [of_nat (48 + n mod 10)])"

declare show_nat.simps [simp del]

section \<open>Regular expressions\<close>

text \<open>
  The constructs that the regular expression literals of the source use. Groups capture
  nothing that the program reads (it only calls \<open>test\<close>), so a group is its body.
\<close>

datatype atom =
    Lit codeunit
  | OneOf jsstring
  | NoneOf jsstring
  | WordChar
  | SpaceChar
  | AnyChar

datatype regex =
    Eps
  | Atom atom
  | Seq regex regex
  | Alt regex regex
  | Star regex
  | Plus regex
  | Bol
  | Eol
  | WordBoundary
  | NotAhead regex

text \<open>
  A position in the subject: the code unit just before it (\<open>None\<close> at the start) and the
  code units from it on.
\<close>

type_synonym pos = "codeunit option \<times> jsstring"

fun accepts :: "atom \<Rightarrow> codeunit \<Rightarrow> bool" where
  "accepts (Lit c) u = (u = c)"
| "accepts (OneOf cs) u = (u \<in> set cs)"
| "accepts (NoneOf cs) u = (u \<notin> set cs)"
| "accepts WordChar u = is_word u"
| "accepts SpaceChar u = is_space u"
| "accepts AnyChar u = (\<not> is_line_terminator u)"

fun step :: "atom \<Rightarrow> pos \<Rightarrow> pos list" where
  "step a (prev, []) = []"
| "step a (prev, u # us) = (if accepts a u then [(Some u, us)] else [])"

fun word_before :: "pos \<Rightarrow> bool" where
  "word_before (None, us) = False"
| "word_before (Some u, us) = is_word u"

fun word_after :: "pos \<Rightarrow> bool" where
  "word_after (prev, []) = False"
| "word_after (prev, u # us) = is_word u"

text \<open>
  Repetition, greedy: the positions after any number of rounds of \<open>f\<close>, each round
  consuming at least one code unit (an empty round is rejected by the matcher). The
  count bounds the rounds by the code units that are left.
\<close>

fun iter :: "(pos \<Rightarrow> pos list) \<Rightarrow> nat \<Rightarrow> pos \<Rightarrow> pos list" where
  "iter f 0 p = [p]"
| "iter f (Suc n) p =
     concat (map (iter f n) (filter (\<lambda>q. length (snd q) < length (snd p)) (f p))) @ [p]"

text \<open>
  \<open>ends r p\<close>: every position at which a match of \<open>r\<close> that starts at \<open>p\<close> can end, in
  the order in which backtracking tries them.
\<close>

primrec ends :: "regex \<Rightarrow> pos \<Rightarrow> pos list" where
  "ends Eps p = [p]"
| "ends (Atom a) p = step a p"
| "ends (Seq r1 r2) p = concat (map (ends r2) (ends r1 p))"
| "ends (Alt r1 r2) p = ends r1 p @ ends r2 p"
| "ends (Star r) p = iter (ends r) (length (snd p)) p"
| "ends (Plus r) p = concat (map (\<lambda>q. iter (ends r) (length (snd q)) q) (ends r p))"
| "ends Bol p = (if fst p = None then [p] else [])"
| "ends Eol p = (if snd p = [] then [p] else [])"
| "ends WordBoundary p = (if word_before p \<noteq> word_after p then [p] else [])"
| "ends (NotAhead r) p = (if ends r p = [] then [p] else [])"

text \<open>The search for a match from every start index, left to right.\<close>

fun search :: "regex \<Rightarrow> pos \<Rightarrow> bool" where
  "search r (prev, []) = (ends r (prev, []) \<noteq> [])"
| "search r (prev, u # us) =
     (if ends r (prev, u # us) \<noteq> [] then True else search r (Some u, us))"

text \<open>\<open>regex.test(s)\<close> for a regular expression without flags.\<close>

definition test :: "regex \<Rightarrow> jsstring \<Rightarrow> bool" where
  "test r s = search r (None, s)"

definition lit :: "char \<Rightarrow> regex" where
  "lit c = Atom (Lit (of_char c))"

primrec str :: "string \<Rightarrow> regex" where
  "str [] = Eps"
| "str (c # cs) = Seq (lit c) (str cs)"

fun seqs :: "regex list \<Rightarrow> regex" where
  "seqs [] = Eps"
| "seqs [r] = r"
| "seqs (r # rs) = Seq r (seqs rs)"

fun alts :: "regex list \<Rightarrow> regex" where
  "alts [] = NotAhead Eps"
| "alts [r] = r"
| "alts (r # rs) = Alt r (alts rs)"

abbreviation ws0 :: regex where "ws0 \<equiv> Star (Atom SpaceChar)"
abbreviation ws1 :: regex where "ws1 \<equiv> Plus (Atom SpaceChar)"
abbreviation w1 :: regex where "w1 \<equiv> Plus (Atom WordChar)"

section \<open>The data model\<close>

datatype Language =
  JavaScript | Python | C | Cpp | Java | HTML | CSS | CSharp | TypeScript | Unknown

datatype Severity = Syntax | Logical | Warning

record ErrorType =
  line :: int
  message :: jsstring
  suggestion :: jsstring
  type :: Severity
  codeSnippet :: "jsstring option"

record Rule =
  rule_regex :: regex
  rule_type :: Severity
  rule_message :: jsstring
  rule_suggestion :: jsstring

subsection \<open>The rule table\<close>

text \<open>\<^verbatim>\<open>/==[^=]/\<close>\<close>

definition re_loose_equality :: regex where
  "re_loose_equality = seqs [str ''=='', Atom (NoneOf (js ''=''))]"

text \<open>\<^verbatim>\<open>/\bvar\b/\<close>\<close>

definition re_var :: regex where
  "re_var = seqs [WordBoundary, str ''var'', WordBoundary]"

text \<open>\<^verbatim>\<open>/console\.log\([^)]*$/\<close>\<close>

definition re_console_log :: regex where
  "re_console_log = seqs [str ''console.log('', Star (Atom (NoneOf (js '')''))), Eol]"

text \<open>\<^verbatim>\<open>/^.*print\s+[^()]/\<close>\<close>

definition re_print :: regex where
  "re_print = seqs [Bol, Star (Atom AnyChar), str ''print'', ws1, Atom (NoneOf (js ''()''))]"

text \<open>\<^verbatim>\<open>/^.*import \*/\<close>\<close>

definition re_import_star :: regex where
  "re_import_star = seqs [Bol, Star (Atom AnyChar), str ''import *'']"

text \<open>\<^verbatim>\<open>/<img\b(?!.*\balt=)/\<close>\<close>

definition re_img_no_alt :: regex where
  "re_img_no_alt =
     seqs [str ''<img'', WordBoundary,
           NotAhead (seqs [Star (Atom AnyChar), WordBoundary, str ''alt=''])]"

text \<open>\<^verbatim>\<open>/!important/\<close>\<close>

definition re_important :: regex where
  "re_important = str ''!important''"

text \<open>\<^verbatim>\<open>/px/\<close>\<close>

definition re_px :: regex where
  "re_px = str ''px''"

definition loose_equality_rule :: Rule where
  "loose_equality_rule =
     \<lparr>rule_regex = re_loose_equality, rule_type = Warning,
      rule_message = js ''Loose equality (==) found.'',
      rule_suggestion = js ''Use === for strict equality checks.''\<rparr>"

text \<open>
  \<open>rules\<close>, an object with one key for each language, as the list of its entries in the
  order of the source.
\<close>

definition rules :: "(Language \<times> Rule list) list" where
  "rules =
    [(JavaScript,
       [loose_equality_rule,
        \<lparr>rule_regex = re_var, rule_type = Warning,
         rule_message = js ''Found var declaration.'',
         rule_suggestion = js ''Use let or const for better scoping.''\<rparr>,
        \<lparr>rule_regex = re_console_log, rule_type = Syntax,
         rule_message = js ''Possible missing semicolon.'',
         rule_suggestion = js ''Add a semicolon at the end.''\<rparr>]),
     (TypeScript, [loose_equality_rule]),
     (Python,
       [\<lparr>rule_regex = re_print, rule_type = Syntax,
         rule_message = js ''Python 3 print requires parentheses.'',
         rule_suggestion = js ''Use print() instead of print.''\<rparr>,
        \<lparr>rule_regex = re_import_star, rule_type = Warning,
         rule_message = js ''Wildcard import found.'',
         rule_suggestion = js ''Avoid 'import *'. Import what you need.''\<rparr>]),
     (HTML,
       [\<lparr>rule_regex = re_img_no_alt, rule_type = Warning,
         rule_message = js ''Image missing alt attribute.'',
         rule_suggestion = js ''Add alt for accessibility.''\<rparr>]),
     (CSS,
       [\<lparr>rule_regex = re_important, rule_type = Warning,
         rule_message = js ''Avoid !important.'',
         rule_suggestion = js ''Use more specific selectors instead.''\<rparr>,
        \<lparr>rule_regex = re_px, rule_type = Warning,
         rule_message = js ''Pixel units used.'',
         rule_suggestion = js ''Consider rem/em for responsiveness.''\<rparr>]),
     (C, []), (Cpp, []), (Java, []), (CSharp, []), (Unknown, [])]"

section \<open>The language detector\<close>

text \<open>\<^verbatim>\<open>/(function\s*\(|=>|const\s+\w+\s*=|let\s+\w+\s*=|var\s+\w+\s*=)/\<close>\<close>

definition pat_JavaScript :: regex where
  "pat_JavaScript =
     alts [seqs [str ''function'', ws0, lit CHR ''(''],
           str ''=>'',
           seqs [str ''const'', ws1, w1, ws0, lit CHR ''=''],
           seqs [str ''let'', ws1, w1, ws0, lit CHR ''=''],
           seqs [str ''var'', ws1, w1, ws0, lit CHR ''='']]"

text \<open>\<^verbatim>\<open>/(def\s+\w+\s*\(|import\s+\w+|print\s*\(|from\s+\w+\s+import)/\<close>\<close>

definition pat_Python :: regex where
  "pat_Python =
     alts [seqs [str ''def'', ws1, w1, ws0, lit CHR ''(''],
           seqs [str ''import'', ws1, w1],
           seqs [str ''print'', ws0, lit CHR ''(''],
           seqs [str ''from'', ws1, w1, ws1, str ''import'']]"

text \<open>\<^verbatim>\<open>/(#include\s*<|printf\s*\(|int\s+main\s*\()/\<close>\<close>

definition pat_C :: regex where
  "pat_C =
     alts [seqs [str ''#include'', ws0, lit CHR ''<''],
           seqs [str ''printf'', ws0, lit CHR ''(''],
           seqs [str ''int'', ws1, str ''main'', ws0, lit CHR ''('']]"

text \<open>\<^verbatim>\<open>/(std::|#include\s*<|using\s+namespace|cout\s*<<)/\<close>\<close>

definition pat_Cpp :: regex where
  "pat_Cpp =
     alts [str ''std::'',
           seqs [str ''#include'', ws0, lit CHR ''<''],
           seqs [str ''using'', ws1, str ''namespace''],
           seqs [str ''cout'', ws0, str ''<<'']]"

text \<open>\<^verbatim>\<open>/(public\s+class|System\.out\.println|import\s+java\.)/\<close>\<close>

definition pat_Java :: regex where
  "pat_Java =
     alts [seqs [str ''public'', ws1, str ''class''],
           str ''System.out.println'',
           seqs [str ''import'', ws1, str ''java.'']]"

text \<open>\<^verbatim>\<open>/(<!DOCTYPE html>|<html|<div\s|class\s*=\s*")/\<close>\<close>

definition pat_HTML :: regex where
  "pat_HTML =
     alts [str ''<!DOCTYPE html>'',
           str ''<html'',
           seqs [str ''<div'', Atom SpaceChar],
           seqs [str ''class'', ws0, lit CHR ''='', ws0, lit (CHR 0x22)]]"

text \<open>\<^verbatim>\<open>/(\.\w+\s*{|#\w+\s*{|@media|color:\s*#)/\<close>\<close>

definition pat_CSS :: regex where
  "pat_CSS =
     alts [seqs [lit CHR ''.'', w1, ws0, lit CHR ''{''],
           seqs [lit CHR ''#'', w1, ws0, lit CHR ''{''],
           str ''@media'',
           seqs [str ''color:'', ws0, lit CHR ''#'']]"

text \<open>\<^verbatim>\<open>/(using\s+System|namespace\s+\w+|Console\.WriteLine)/\<close>\<close>

definition pat_CSharp :: regex where
  "pat_CSharp =
     alts [seqs [str ''using'', ws1, str ''System''],
           seqs [str ''namespace'', ws1, w1],
           str ''Console.WriteLine'']"

text \<open>\<^verbatim>\<open>/(type\s+\w+\s*=|interface\s+\w+\s*{|:\s*\w+\s*[;=])/\<close>\<close>

definition pat_TypeScript :: regex where
  "pat_TypeScript =
     alts [seqs [str ''type'', ws1, w1, ws0, lit CHR ''=''],
           seqs [str ''interface'', ws1, w1, ws0, lit CHR ''{''],
           seqs [lit CHR '':'', ws0, w1, ws0, Atom (OneOf (js '';=''))]]"

definition patterns :: "(regex \<times> Language) list" where
  "patterns =
     [(pat_JavaScript, JavaScript), (pat_Python, Python), (pat_C, C), (pat_Cpp, Cpp),
      (pat_Java, Java), (pat_HTML, HTML), (pat_CSS, CSS), (pat_CSharp, CSharp),
      (pat_TypeScript, TypeScript)]"

text \<open>The \<open>for ... of\<close> loop of \<open>detectLanguage\<close> and the \<open>return "Unknown"\<close> after it.\<close>

fun first_match :: "(regex \<times> Language) list \<Rightarrow> jsstring \<Rightarrow> Language" where
  "first_match [] trimmedCode = Unknown"
| "first_match ((pattern, language) # rest) trimmedCode =
     (if test pattern trimmedCode then language else first_match rest trimmedCode)"

definition detectLanguage :: "jsstring \<Rightarrow> Language" where
  "detectLanguage code =
     (let trimmedCode = trim code in
      if trimmedCode = [] then Unknown else first_match patterns trimmedCode)"

section \<open>The rule engine\<close>

text \<open>
  The two analysis functions push onto the arrays \<open>errors\<close> and \<open>tips\<close> that their
  caller hands them; the model takes both arrays and returns them updated.
\<close>

definition apply_rule :: "jsstring \<Rightarrow> nat \<Rightarrow> Rule \<Rightarrow> ErrorType list \<Rightarrow> ErrorType list" where
  "apply_rule ln lineNumber rule errors =
     (if test (rule_regex rule) ln
      then errors @ [\<lparr>line = int lineNumber, message = rule_message rule,
                      suggestion = rule_suggestion rule, type = rule_type rule,
                      codeSnippet = Some (trim ln)\<rparr>]
      else errors)"

definition analyzeCodeByRules ::
  "jsstring list \<Rightarrow> Language \<Rightarrow> ErrorType list \<Rightarrow> jsstring list
     \<Rightarrow> ErrorType list \<times> jsstring list" where
  "analyzeCodeByRules lines language errors tips =
     (let langRules = (case map_of rules language of Some rs \<Rightarrow> rs | None \<Rightarrow> [])
      in (fold (\<lambda>(index, ln) errs.
                  let lineNumber = index + 1
                  in fold (apply_rule ln lineNumber) langRules errs)
               (enumerate 0 lines) errors,
          tips))"

definition long_line_tip :: "nat \<Rightarrow> jsstring \<Rightarrow> jsstring" where
  "long_line_tip index ln =
     js ''Line '' @ show_nat (index + 1) @ js '' is long ('' @ show_nat (length ln)
       @ js '' chars). Consider splitting.''"

definition has_loop :: "jsstring \<Rightarrow> bool" where
  "has_loop l = (str_includes l (js ''while(true)'') \<or> str_includes l (js ''for(;;)''))"

definition analyzeGeneral ::
  "jsstring list \<Rightarrow> ErrorType list \<Rightarrow> jsstring list \<Rightarrow> ErrorType list \<times> jsstring list" where
  "analyzeGeneral lines errors tips =
     (let tips' = fold (\<lambda>(index, ln) ts.
                          if length ln > 100 then ts @ [long_line_tip index ln] else ts)
                       (enumerate 0 lines) tips;
          content = concat lines
      in if has_loop content
         then (errors @ [\<lparr>line = findIndex has_loop lines + 1,
                           message = js ''Potential infinite loop detected.'',
                           suggestion = js ''Add a break condition.'',
                           type = Logical, codeSnippet = None\<rparr>],
               tips')
         else (errors, tips'))"

text \<open>
  One analysis run, the body of the timer callback of \<open>analyzeCode\<close>: two fresh arrays,
  the per-language rules, then the generic checks.
\<close>

definition analyze :: "jsstring list \<Rightarrow> Language \<Rightarrow> ErrorType list \<times> jsstring list" where
  "analyze lines detectedLang =
     (case analyzeCodeByRules lines detectedLang [] [] of
        (newErrors, newTips) \<Rightarrow> analyzeGeneral lines newErrors newTips)"

section \<open>The component\<close>

datatype Theme = Light | Dark

record State =
  s_code :: jsstring
  s_language :: "Language option"
  s_errors :: "ErrorType list"
  s_tips :: "jsstring list"
  s_isAnalyzing :: bool
  s_theme :: Theme

text \<open>
  \<open>analyzeCode\<close> up to \<open>setTimeout\<close>: the new state and, when a timer was set, the text
  and the language that its callback has captured.
\<close>

definition analyzeCode :: "State \<Rightarrow> State \<times> (jsstring \<times> Language) option" where
  "analyzeCode s =
     (if trim (s_code s) = [] then (s, None)
      else let detectedLang = detectLanguage (s_code s)
           in (s\<lparr>s_isAnalyzing := True, s_errors := [], s_tips := [],
                 s_language := Some detectedLang\<rparr>,
               Some (s_code s, detectedLang)))"

text \<open>The timer callback, run on the state that the component has when the timer fires.\<close>

definition on_timeout :: "jsstring \<times> Language \<Rightarrow> State \<Rightarrow> State" where
  "on_timeout captured s =
     (case captured of
        (code, detectedLang) \<Rightarrow>
          (case analyze (split_nl code) detectedLang of
             (newErrors, newTips) \<Rightarrow>
               s\<lparr>s_errors := newErrors, s_tips := newTips, s_isAnalyzing := False\<rparr>))"

section \<open>Closed forms of the loops\<close>

text \<open>
  The object that \<open>analyzeCodeByRules\<close> pushes for a rule that matches a line, the
  findings of one line, the rule list of a language, the tips of the long lines and the
  object that \<open>analyzeGeneral\<close> pushes for a loop without exit: the terms in which the
  two \<open>forEach\<close> loops are characterised below.
\<close>

definition finding :: "jsstring \<Rightarrow> nat \<Rightarrow> Rule \<Rightarrow> ErrorType" where
  "finding ln lineNumber rule =
     \<lparr>line = int lineNumber, message = rule_message rule,
      suggestion = rule_suggestion rule, type = rule_type rule,
      codeSnippet = Some (trim ln)\<rparr>"

definition line_findings :: "Rule list \<Rightarrow> nat \<times> jsstring \<Rightarrow> ErrorType list" where
  "line_findings rs p =
     map (finding (snd p) (fst p + 1)) (filter (\<lambda>r. test (rule_regex r) (snd p)) rs)"

definition lang_rules :: "Language \<Rightarrow> Rule list" where
  "lang_rules language = (case map_of rules language of Some rs \<Rightarrow> rs | None \<Rightarrow> [])"

definition long_tips :: "jsstring list \<Rightarrow> jsstring list" where
  "long_tips lines =
     map (\<lambda>(index, ln). long_line_tip index ln)
       (filter (\<lambda>(index, ln). length ln > 100) (enumerate 0 lines))"

definition loop_finding :: "jsstring list \<Rightarrow> ErrorType" where
  "loop_finding lines = \<lparr>line = findIndex has_loop lines + 1,
                           message = js ''Potential infinite loop detected.'',
                           suggestion = js ''Add a break condition.'',
                           type = Logical, codeSnippet = None\<rparr>"

section \<open>A language reading of the detector patterns\<close>

text \<open>
  The detector patterns use no anchor, no word boundary and no lookahead. For such a
  regular expression a match does not depend on what surrounds it, and \<open>matches r w\<close>
  says that \<open>r\<close> matches exactly the code units \<open>w\<close>; below, \<open>ends\<close> is shown to compute
  this relation. The three predicates after it are read off the regular expression:
  it never matches the empty string, and every non-empty match begins, respectively
  ends, with a code unit that is not white space.
\<close>

fun context_free :: "regex \<Rightarrow> bool" where
  "context_free Eps = True"
| "context_free (Atom a) = True"
| "context_free (Seq r1 r2) = (context_free r1 \<and> context_free r2)"
| "context_free (Alt r1 r2) = (context_free r1 \<and> context_free r2)"
| "context_free (Star r) = context_free r"
| "context_free (Plus r) = context_free r"
| "context_free Bol = False"
| "context_free Eol = False"
| "context_free WordBoundary = False"
| "context_free (NotAhead r) = False"

inductive matches :: "regex \<Rightarrow> jsstring \<Rightarrow> bool" where
  m_Eps: "matches Eps []"
| m_Atom: "accepts a u \<Longrightarrow> matches (Atom a) [u]"
| m_Seq: "matches r1 x1 \<Longrightarrow> matches r2 x2 \<Longrightarrow> matches (Seq r1 r2) (x1 @ x2)"
| m_Alt1: "matches r1 w \<Longrightarrow> matches (Alt r1 r2) w"
| m_Alt2: "matches r2 w \<Longrightarrow> matches (Alt r1 r2) w"
| m_Star0: "matches (Star r) []"
| m_Star1: "matches r x1 \<Longrightarrow> x1 \<noteq> [] \<Longrightarrow> matches (Star r) x2 \<Longrightarrow> matches (Star r) (x1 @ x2)"
| m_Plus: "matches r x1 \<Longrightarrow> matches (Star r) x2 \<Longrightarrow> matches (Plus r) (x1 @ x2)"

definition after :: "codeunit option \<Rightarrow> jsstring \<Rightarrow> codeunit option" where
  "after p w = (if w = [] then p else Some (last w))"

definition ends_spec :: "regex \<Rightarrow> bool" where
  "ends_spec r \<longleftrightarrow>
     (\<forall>p U pc V. (pc, V) \<in> set (ends r (p, U)) \<longleftrightarrow>
        (\<exists>w. U = w @ V \<and> matches r w \<and> pc = after p w))"

fun solid_atom :: "atom \<Rightarrow> bool" where
  "solid_atom (Lit c) = (\<not> is_space c)"
| "solid_atom (OneOf cs) = list_all (\<lambda>c. \<not> is_space c) cs"
| "solid_atom (NoneOf cs) = False"
| "solid_atom WordChar = True"
| "solid_atom SpaceChar = False"
| "solid_atom AnyChar = False"

fun nonnull :: "regex \<Rightarrow> bool" where
  "nonnull (Atom a) = True"
| "nonnull (Seq r1 r2) = (nonnull r1 \<or> nonnull r2)"
| "nonnull (Alt r1 r2) = (nonnull r1 \<and> nonnull r2)"
| "nonnull (Plus r) = nonnull r"
| "nonnull r = False"

fun solid_start :: "regex \<Rightarrow> bool" where
  "solid_start Eps = True"
| "solid_start (Atom a) = solid_atom a"
| "solid_start (Seq r1 r2) = (solid_start r1 \<and> (nonnull r1 \<or> solid_start r2))"
| "solid_start (Alt r1 r2) = (solid_start r1 \<and> solid_start r2)"
| "solid_start (Star r) = solid_start r"
| "solid_start (Plus r) = solid_start r"
| "solid_start r = False"

fun solid_end :: "regex \<Rightarrow> bool" where
  "solid_end Eps = True"
| "solid_end (Atom a) = solid_atom a"
| "solid_end (Seq r1 r2) = (solid_end r2 \<and> (nonnull r2 \<or> solid_end r1))"
| "solid_end (Alt r1 r2) = (solid_end r1 \<and> solid_end r2)"
| "solid_end (Star r) = solid_end r"
| "solid_end (Plus r) = solid_end r"
| "solid_end r = False"

definition trim_stable :: "regex \<Rightarrow> bool" where
  "trim_stable r \<longleftrightarrow> context_free r \<and> nonnull r \<and> solid_start r \<and> solid_end r"

section \<open>RegExp objects and their state\<close>

text \<open>
  A regular expression literal evaluates to an object: its source and flags are fixed,
  its \<open>lastIndex\<close> is mutable. \<open>exec_test\<close> is \<open>RegExp.prototype.test\<close> as ECMAScript
  defines it (RegExpBuiltinExec): with the flag \<open>g\<close> or \<open>y\<close> the search starts at
  \<open>lastIndex\<close> (with \<open>y\<close> it also stops there), a match stores its end index in
  \<open>lastIndex\<close> and a failure stores 0; without these flags \<open>lastIndex\<close> is neither read
  nor written. It returns the answer and the object as the call leaves it.
\<close>

record RegExp =
  source :: regex
  global :: bool
  sticky :: bool
  lastIndex :: nat

definition regexp_literal :: "regex \<Rightarrow> RegExp" where
  "regexp_literal r = \<lparr>source = r, global = False, sticky = False, lastIndex = 0\<rparr>"

definition pos_at :: "jsstring \<Rightarrow> nat \<Rightarrow> pos" where
  "pos_at s k = (if k = 0 then None else Some (s ! (k - 1)), drop k s)"

fun match_from :: "regex \<Rightarrow> bool \<Rightarrow> pos \<Rightarrow> pos option" where
  "match_from r y (prev, []) = (case ends r (prev, []) of [] \<Rightarrow> None | q # qs \<Rightarrow> Some q)"
| "match_from r y (prev, u # us) =
     (case ends r (prev, u # us) of
        q # qs \<Rightarrow> Some q
      | [] \<Rightarrow> if y then None else match_from r y (Some u, us))"

definition exec_test :: "RegExp \<Rightarrow> jsstring \<Rightarrow> bool \<times> RegExp" where
  "exec_test R s =
     (let flagged = (global R \<or> sticky R);
          start = (if flagged then lastIndex R else 0)
      in if start > length s then (False, if flagged then R\<lparr>lastIndex := 0\<rparr> else R)
         else (case match_from (source R) (sticky R) (pos_at s start) of
                 None \<Rightarrow> (False, if flagged then R\<lparr>lastIndex := 0\<rparr> else R)
               | Some q \<Rightarrow>
                   (True, if flagged then R\<lparr>lastIndex := length s - length (snd q)\<rparr> else R)))"

text \<open>
  The objects of the module-level table \<open>rules\<close> are created once and shared by all
  runs, so their \<open>lastIndex\<close> is state that one run could leave to the next (the
  literals in \<open>detectLanguage\<close> are evaluated anew at every call). A rule is paired
  with its object; \<open>rule_objects_at li\<close> is the table in which the object of rule \<open>k\<close> of
  language \<open>l\<close> has \<open>lastIndex = li l k\<close>, and \<open>rule_objects\<close> is the table as the module
  creates it. The functions below are \<open>analyzeCodeByRules\<close> and the analysis run again,
  now calling \<open>exec_test\<close> on the objects and returning the table as they leave it.
\<close>

type_synonym rule_object = "RegExp \<times> Rule"

definition rule_objects_at :: "(Language \<Rightarrow> nat \<Rightarrow> nat) \<Rightarrow> (Language \<times> rule_object list) list" where
  "rule_objects_at li =
     map (\<lambda>(l, rs). (l, map (\<lambda>(k, r). ((regexp_literal (rule_regex r))\<lparr>lastIndex := li l k\<rparr>, r))
                            (enumerate 0 rs)))
       rules"

definition rule_objects :: "(Language \<times> rule_object list) list" where
  "rule_objects = rule_objects_at (\<lambda>l k. 0)"

fun apply_rules_st ::
  "jsstring \<Rightarrow> nat \<Rightarrow> rule_object list \<Rightarrow> ErrorType list \<Rightarrow> ErrorType list \<times> rule_object list" where
  "apply_rules_st ln lineNumber [] errors = (errors, [])"
| "apply_rules_st ln lineNumber ((R, rule) # rest) errors =
     (case exec_test R ln of
        (hit, R') \<Rightarrow>
          (case apply_rules_st ln lineNumber rest
                  (if hit then errors @ [finding ln lineNumber rule] else errors) of
             (errors', rest') \<Rightarrow> (errors', (R', rule) # rest')))"

fun scan_lines_st ::
  "nat \<Rightarrow> jsstring list \<Rightarrow> rule_object list \<Rightarrow> ErrorType list \<Rightarrow> ErrorType list \<times> rule_object list" where
  "scan_lines_st index [] langRules errors = (errors, langRules)"
| "scan_lines_st index (ln # lns) langRules errors =
     (case apply_rules_st ln (index + 1) langRules errors of
        (errors', langRules') \<Rightarrow> scan_lines_st (Suc index) lns langRules' errors')"

definition analyzeCodeByRules_st ::
  "jsstring list \<Rightarrow> Language \<Rightarrow> ErrorType list \<Rightarrow> jsstring list
     \<Rightarrow> (Language \<times> rule_object list) list
     \<Rightarrow> (ErrorType list \<times> jsstring list) \<times> (Language \<times> rule_object list) list" where
  "analyzeCodeByRules_st lines language errors tips table =
     (case map_of table language of
        None \<Rightarrow> ((errors, tips), table)
      | Some langRules \<Rightarrow>
          (case scan_lines_st 0 lines langRules errors of
             (errors', langRules') \<Rightarrow>
               ((errors', tips),
                map (\<lambda>(l, rs). if l = language then (l, langRules') else (l, rs)) table)))"

definition analyze_st ::
  "jsstring list \<Rightarrow> Language \<Rightarrow> (Language \<times> rule_object list) list
     \<Rightarrow> (ErrorType list \<times> jsstring list) \<times> (Language \<times> rule_object list) list" where
  "analyze_st lines detectedLang table =
     (case analyzeCodeByRules_st lines detectedLang [] [] table of
        ((newErrors, newTips), table') \<Rightarrow> (analyzeGeneral lines newErrors newTips, table'))"

definition flagless :: "rule_object list \<Rightarrow> bool" where
  "flagless objs \<longleftrightarrow>
     list_all (\<lambda>(R, r). \<not> global R \<and> \<not> sticky R \<and> source R = rule_regex r) objs"

section \<open>Properties of the string and array functions\<close>

lemma starts_with_iff: "starts_with s t \<longleftrightarrow> (\<exists>ss. s = t @ ss)"
  by (induction s t rule: starts_with.induct) auto

lemma str_includes_iff: "str_includes s t \<longleftrightarrow> (\<exists>ps ss. s = ps @ t @ ss)"
proof (induction s)
  case Nil
  then show ?case by auto
next
  case (Cons x s)
  show ?case
  proof
    assume "str_includes (x # s) t"
    then consider "starts_with (x # s) t" | "str_includes s t" by (auto split: if_splits)
    then show "\<exists>ps ss. x # s = ps @ t @ ss"
    proof cases
      case 1
      then obtain ss where "x # s = t @ ss" by (auto simp: starts_with_iff)
      then have "x # s = [] @ t @ ss" by simp
      then show ?thesis by blast
    next
      case 2
      then obtain ps ss where "s = ps @ t @ ss" using Cons.IH by auto
      then have "x # s = (x # ps) @ t @ ss" by simp
      then show ?thesis by blast
    qed
  next
    assume "\<exists>ps ss. x # s = ps @ t @ ss"
    then obtain ps ss where e: "x # s = ps @ t @ ss" by blast
    show "str_includes (x # s) t"
    proof (cases ps)
      case Nil
      with e have "starts_with (x # s) t" by (auto simp: starts_with_iff)
      then show ?thesis by simp
    next
      case (Cons p ps')
      with e have "s = ps' @ t @ ss" by simp
      then have "str_includes s t" using Cons.IH by blast
      then show ?thesis by simp
    qed
  qed
qed

lemma has_loop_iff:
  "has_loop l \<longleftrightarrow>
     (\<exists>ps ss. l = ps @ js ''while(true)'' @ ss) \<or> (\<exists>ps ss. l = ps @ js ''for(;;)'' @ ss)"
  by (simp only: has_loop_def str_includes_iff)

lemma findIndex_from_none: "(\<forall>x\<in>set xs. \<not> P x) \<Longrightarrow> findIndex_from k P xs = - 1"
  by (induction xs arbitrary: k) auto

lemma findIndex_from_first:
  "i < length xs \<Longrightarrow> P (xs ! i) \<Longrightarrow> (\<forall>j<i. \<not> P (xs ! j)) \<Longrightarrow> findIndex_from k P xs = int (k + i)"
proof (induction xs arbitrary: k i)
  case Nil
  then show ?case by simp
next
  case (Cons x xs)
  show ?case
  proof (cases i)
    case 0
    with Cons.prems show ?thesis by simp
  next
    case (Suc i')
    with Cons.prems have "\<not> P x" by auto
    moreover have "findIndex_from (Suc k) P xs = int (Suc k + i')"
      using Cons.prems Suc by (intro Cons.IH) auto
    ultimately show ?thesis using Suc by simp
  qed
qed

lemma findIndex_from_range:
  "findIndex_from k P xs = - 1 \<or> (int k \<le> findIndex_from k P xs \<and> findIndex_from k P xs < int k + int (length xs))"
proof (induction xs arbitrary: k)
  case Nil
  then show ?case by simp
next
  case (Cons x xs)
  from Cons.IH [of "Suc k"] show ?case by auto
qed

lemma findIndex_found: "\<exists>x\<in>set xs. P x \<Longrightarrow> 0 \<le> findIndex_from k P xs"
  by (induction xs arbitrary: k) auto

lemma findIndex_none: "(\<forall>x\<in>set xs. \<not> P x) \<Longrightarrow> findIndex P xs = - 1"
  by (simp add: findIndex_def findIndex_from_none)

lemma findIndex_first:
  "i < length xs \<Longrightarrow> P (xs ! i) \<Longrightarrow> (\<forall>j<i. \<not> P (xs ! j)) \<Longrightarrow> findIndex P xs = int i"
  using findIndex_from_first [of i xs P 0] by (simp add: findIndex_def)

text \<open>
  The count that \<open>iter\<close> is given never cuts a repetition short: every round consumes a
  code unit, so any count from the number of code units left gives the same positions.
\<close>

lemma iter_fuel: "length (snd p) \<le> n \<Longrightarrow> iter f (Suc n) p = iter f n p"
proof (induction n arbitrary: p)
  case 0
  then show ?case by simp
next
  case (Suc n)
  have "iter f (Suc n) q = iter f n q"
    if "q \<in> set (filter (\<lambda>q. length (snd q) < length (snd p)) (f p))" for q
  proof -
    from that Suc.prems have "length (snd q) \<le> n" by simp
    then show ?thesis by (rule Suc.IH)
  qed
  then have "map (iter f (Suc n)) (filter (\<lambda>q. length (snd q) < length (snd p)) (f p))
      = map (iter f n) (filter (\<lambda>q. length (snd q) < length (snd p)) (f p))"
    by (rule map_cong [OF refl])
  then show ?case by (simp only: iter.simps)
qed

lemma iter_enough_fuel: "length (snd p) \<le> n \<Longrightarrow> iter f n p = iter f (length (snd p)) p"
proof (induction "n - length (snd p)" arbitrary: n)
  case 0
  then show ?case by simp
next
  case (Suc d)
  then obtain m where m: "n = Suc m" "length (snd p) \<le> m" "d = m - length (snd p)"
    by (cases n) auto
  then show ?case using Suc.hyps(1) [of m] iter_fuel [of p m f] by simp
qed

section \<open>The matcher computes the language reading\<close>

inductive_cases m_EpsE: "matches Eps w"

inductive_cases m_AtomE: "matches (Atom a) w"

inductive_cases m_SeqE: "matches (Seq r1 r2) w"

inductive_cases m_AltE: "matches (Alt r1 r2) w"

inductive_cases m_StarE: "matches (Star r) w"

inductive_cases m_PlusE: "matches (Plus r) w"

lemma after_Nil: "after p [] = p"
  by (simp add: after_def)

lemma after_append: "after (after p x1) x2 = after p (x1 @ x2)"
  by (simp add: after_def)

lemma Star_cases:
  "matches (Star r) w \<Longrightarrow>
     w = [] \<or> (\<exists>x1 x2. w = x1 @ x2 \<and> matches r x1 \<and> x1 \<noteq> [] \<and> matches (Star r) x2)"
  by (erule m_StarE) (simp, blast)

lemma Plus_cases:
  "matches (Plus r) w \<Longrightarrow> \<exists>x1 x2. w = x1 @ x2 \<and> matches r x1 \<and> matches (Star r) x2"
  by (erule m_PlusE) blast

lemma Seq_cases:
  "matches (Seq r1 r2) w \<Longrightarrow> \<exists>x1 x2. w = x1 @ x2 \<and> matches r1 x1 \<and> matches r2 x2"
  by (erule m_SeqE) blast

lemma Alt_cases: "matches (Alt r1 r2) w \<Longrightarrow> matches r1 w \<or> matches r2 w"
  by (erule m_AltE) blast+

lemma Atom_cases: "matches (Atom a) w \<Longrightarrow> \<exists>u. w = [u] \<and> accepts a u"
  by (erule m_AtomE) blast

lemma Eps_cases: "matches Eps w \<Longrightarrow> w = []"
  by (erule m_EpsE)

lemma ends_specD1:
  "ends_spec r \<Longrightarrow> (pc, V) \<in> set (ends r (p, U)) \<Longrightarrow> \<exists>w. U = w @ V \<and> matches r w \<and> pc = after p w"
  by (simp add: ends_spec_def)

lemma ends_specD2:
  "ends_spec r \<Longrightarrow> matches r w \<Longrightarrow> (after p w, V) \<in> set (ends r (p, w @ V))"
  unfolding ends_spec_def by blast

lemma iter_Suc_self: "p \<in> set (iter f (Suc n) p)"
  by simp

lemma iter_Suc_mem:
  "q \<in> set (f p) \<Longrightarrow> length (snd q) < length (snd p) \<Longrightarrow> x \<in> set (iter f n q)
     \<Longrightarrow> x \<in> set (iter f (Suc n) p)"
  by (cases q) auto

lemma iter_Suc_cases:
  "x \<in> set (iter f (Suc n) p) \<Longrightarrow>
     x = p \<or> (\<exists>q\<in>set (f p). length (snd q) < length (snd p) \<and> x \<in> set (iter f n q))"
  by auto

lemma iter_spec:
  assumes r: "ends_spec r"
  shows "length U \<le> n \<Longrightarrow>
     ((pc, V) \<in> set (iter (ends r) n (p, U)) \<longleftrightarrow>
        (\<exists>w. U = w @ V \<and> matches (Star r) w \<and> pc = after p w))"
proof (induction n arbitrary: p U)
  case 0
  then have "U = []" by simp
  then show ?case by (auto simp: after_def intro: m_Star0)
next
  case (Suc n)
  show ?case
  proof
    assume "(pc, V) \<in> set (iter (ends r) (Suc n) (p, U))"
    from iter_Suc_cases [OF this] consider (here) "(pc, V) = (p, U)"
      | (round) q where "q \<in> set (ends r (p, U))" "length (snd q) < length U"
          "(pc, V) \<in> set (iter (ends r) n q)"
      by auto
    then show "\<exists>w. U = w @ V \<and> matches (Star r) w \<and> pc = after p w"
    proof cases
      case here
      then have "U = [] @ V \<and> matches (Star r) [] \<and> pc = after p []"
        by (simp add: after_def m_Star0)
      then show ?thesis by blast
    next
      case round
      obtain p1 U1 where q: "q = (p1, U1)" by (cases q)
      from ends_specD1 [OF r] round(1) q
      obtain x1 where x1: "U = x1 @ U1" "matches r x1" "p1 = after p x1" by blast
      from round(2) q x1 have ne: "x1 \<noteq> []" by auto
      from round(2) q Suc.prems have "length U1 \<le> n" by simp
      from Suc.IH [OF this, of p1] round(3) q
      obtain x2 where x2: "U1 = x2 @ V" "matches (Star r) x2" "pc = after p1 x2" by blast
      from x1 x2 ne have "U = (x1 @ x2) @ V \<and> matches (Star r) (x1 @ x2) \<and> pc = after p (x1 @ x2)"
        by (simp add: after_append m_Star1)
      then show ?thesis by blast
    qed
  next
    assume "\<exists>w. U = w @ V \<and> matches (Star r) w \<and> pc = after p w"
    then obtain w where w: "U = w @ V" "matches (Star r) w" "pc = after p w" by blast
    from Star_cases [OF w(2)] consider (empty) "w = []"
      | (step) x1 x2 where "w = x1 @ x2" "matches r x1" "x1 \<noteq> []" "matches (Star r) x2"
      by blast
    then show "(pc, V) \<in> set (iter (ends r) (Suc n) (p, U))"
    proof cases
      case empty
      with w have "(pc, V) = (p, U)" by (simp add: after_def)
      then show ?thesis by (simp only: iter_Suc_self)
    next
      case step
      let ?q = "(after p x1, x2 @ V)"
      from ends_specD2 [OF r step(2), of p "x2 @ V"] w(1) step(1)
      have a: "?q \<in> set (ends r (p, U))" by simp
      from w(1) step have b: "length (snd ?q) < length (snd (p, U))" by simp
      with Suc.prems have "length (x2 @ V) \<le> n" by simp
      note ih = Suc.IH [OF this, of "after p x1"]
      from w(3) step(1) have "pc = after (after p x1) x2" by (simp add: after_append)
      with step(4) have "\<exists>w. x2 @ V = w @ V \<and> matches (Star r) w \<and> pc = after (after p x1) w"
        by blast
      then have c: "(pc, V) \<in> set (iter (ends r) n ?q)" by (rule ih [THEN iffD2])
      from a b c show ?thesis by (rule iter_Suc_mem)
    qed
  qed
qed

lemma ends_spec_Eps: "ends_spec Eps"
  unfolding ends_spec_def by (auto simp: after_def intro: m_Eps dest: Eps_cases)

lemma ends_spec_Atom: "ends_spec (Atom a)"
  unfolding ends_spec_def
proof (intro allI)
  fix p U pc V
  show "(pc, V) \<in> set (ends (Atom a) (p, U)) \<longleftrightarrow>
          (\<exists>w. U = w @ V \<and> matches (Atom a) w \<and> pc = after p w)"
  proof (cases U)
    case Nil
    then show ?thesis by (auto dest: Atom_cases)
  next
    case (Cons u us)
    show ?thesis
    proof
      assume "(pc, V) \<in> set (ends (Atom a) (p, U))"
      with Cons have "accepts a u" "pc = Some u" "V = us" by (auto split: if_splits)
      with Cons have "U = [u] @ V \<and> matches (Atom a) [u] \<and> pc = after p [u]"
        by (simp add: after_def m_Atom)
      then show "\<exists>w. U = w @ V \<and> matches (Atom a) w \<and> pc = after p w" by blast
    next
      assume "\<exists>w. U = w @ V \<and> matches (Atom a) w \<and> pc = after p w"
      then obtain w where w: "U = w @ V" "matches (Atom a) w" "pc = after p w" by blast
      from Atom_cases [OF w(2)] obtain u' where "w = [u']" "accepts a u'" by blast
      with w Cons show "(pc, V) \<in> set (ends (Atom a) (p, U))" by (simp add: after_def)
    qed
  qed
qed

lemma ends_spec_Seq:
  assumes "ends_spec r1" "ends_spec r2"
  shows "ends_spec (Seq r1 r2)"
  unfolding ends_spec_def
proof (intro allI iffI)
  fix p U pc V
  assume "(pc, V) \<in> set (ends (Seq r1 r2) (p, U))"
  then obtain q where q: "q \<in> set (ends r1 (p, U))" "(pc, V) \<in> set (ends r2 q)" by auto
  obtain p1 U1 where q': "q = (p1, U1)" by (cases q)
  from ends_specD1 [OF assms(1)] q(1) q'
  obtain x1 where x1: "U = x1 @ U1" "matches r1 x1" "p1 = after p x1" by blast
  from ends_specD1 [OF assms(2)] q(2) q'
  obtain x2 where x2: "U1 = x2 @ V" "matches r2 x2" "pc = after p1 x2" by blast
  from x1 x2 have "U = (x1 @ x2) @ V \<and> matches (Seq r1 r2) (x1 @ x2) \<and> pc = after p (x1 @ x2)"
    by (simp add: after_append m_Seq)
  then show "\<exists>w. U = w @ V \<and> matches (Seq r1 r2) w \<and> pc = after p w" by blast
next
  fix p U pc V
  assume "\<exists>w. U = w @ V \<and> matches (Seq r1 r2) w \<and> pc = after p w"
  then obtain w where w: "U = w @ V" "matches (Seq r1 r2) w" "pc = after p w" by blast
  from Seq_cases [OF w(2)] obtain x1 x2 where x: "w = x1 @ x2" "matches r1 x1" "matches r2 x2"
    by blast
  from ends_specD2 [OF assms(1) x(2), of p "x2 @ V"] w(1) x(1)
  have a: "(after p x1, x2 @ V) \<in> set (ends r1 (p, U))" by simp
  from ends_specD2 [OF assms(2) x(3), of "after p x1" V]
  have "(after (after p x1) x2, V) \<in> set (ends r2 (after p x1, x2 @ V))" .
  with w(3) x(1) have b: "(pc, V) \<in> set (ends r2 (after p x1, x2 @ V))"
    by (simp add: after_append)
  from a b show "(pc, V) \<in> set (ends (Seq r1 r2) (p, U))" by auto
qed

lemma ends_spec_Alt:
  assumes "ends_spec r1" "ends_spec r2"
  shows "ends_spec (Alt r1 r2)"
  unfolding ends_spec_def
proof (intro allI iffI)
  fix p U pc V
  assume "(pc, V) \<in> set (ends (Alt r1 r2) (p, U))"
  then have "(pc, V) \<in> set (ends r1 (p, U)) \<or> (pc, V) \<in> set (ends r2 (p, U))" by simp
  then show "\<exists>w. U = w @ V \<and> matches (Alt r1 r2) w \<and> pc = after p w"
    using ends_specD1 [OF assms(1), of pc V p U] ends_specD1 [OF assms(2), of pc V p U]
    by (blast intro: m_Alt1 m_Alt2)
next
  fix p U pc V
  assume "\<exists>w. U = w @ V \<and> matches (Alt r1 r2) w \<and> pc = after p w"
  then obtain w where w: "U = w @ V" "matches (Alt r1 r2) w" "pc = after p w" by blast
  from Alt_cases [OF w(2)] show "(pc, V) \<in> set (ends (Alt r1 r2) (p, U))"
    using ends_specD2 [OF assms(1), of w p V] ends_specD2 [OF assms(2), of w p V] w(1,3)
    by auto
qed

lemma ends_spec_Star:
  assumes "ends_spec r"
  shows "ends_spec (Star r)"
  unfolding ends_spec_def using iter_spec [OF assms] by simp

lemma ends_spec_Plus:
  assumes "ends_spec r"
  shows "ends_spec (Plus r)"
  unfolding ends_spec_def
proof (intro allI iffI)
  fix p U pc V
  assume "(pc, V) \<in> set (ends (Plus r) (p, U))"
  then obtain q where q: "q \<in> set (ends r (p, U))"
    "(pc, V) \<in> set (iter (ends r) (length (snd q)) q)" by auto
  obtain p1 U1 where q': "q = (p1, U1)" by (cases q)
  from ends_specD1 [OF assms] q(1) q'
  obtain x1 where x1: "U = x1 @ U1" "matches r x1" "p1 = after p x1" by blast
  from q(2) q' have "(pc, V) \<in> set (iter (ends r) (length U1) (p1, U1))" by simp
  with iter_spec [OF assms, of U1 "length U1" pc V p1]
  obtain x2 where x2: "U1 = x2 @ V" "matches (Star r) x2" "pc = after p1 x2" by blast
  from x1 x2 have "U = (x1 @ x2) @ V \<and> matches (Plus r) (x1 @ x2) \<and> pc = after p (x1 @ x2)"
    by (simp add: after_append m_Plus)
  then show "\<exists>w. U = w @ V \<and> matches (Plus r) w \<and> pc = after p w" by blast
next
  fix p U pc V
  assume "\<exists>w. U = w @ V \<and> matches (Plus r) w \<and> pc = after p w"
  then obtain w where w: "U = w @ V" "matches (Plus r) w" "pc = after p w" by blast
  from Plus_cases [OF w(2)] obtain x1 x2 where x: "w = x1 @ x2" "matches r x1" "matches (Star r) x2"
    by blast
  let ?q = "(after p x1, x2 @ V)"
  from ends_specD2 [OF assms x(2), of p "x2 @ V"] w(1) x(1)
  have a: "?q \<in> set (ends r (p, U))" by simp
  from w(3) x(1) have "pc = after (after p x1) x2" by (simp add: after_append)
  with x(3) have "\<exists>w. x2 @ V = w @ V \<and> matches (Star r) w \<and> pc = after (after p x1) w"
    by blast
  then have "(pc, V) \<in> set (iter (ends r) (length (x2 @ V)) ?q)"
    by (rule iter_spec [OF assms order_refl, THEN iffD2])
  then have b: "(pc, V) \<in> set (iter (ends r) (length (snd ?q)) ?q)" by simp
  from a b show "(pc, V) \<in> set (ends (Plus r) (p, U))"
    by (simp only: ends.simps set_concat set_map) blast
qed

lemma ends_matches: "context_free r \<Longrightarrow> ends_spec r"
  by (induction r)
     (simp_all add: ends_spec_Eps ends_spec_Atom ends_spec_Seq ends_spec_Alt ends_spec_Star
        ends_spec_Plus)

lemma ends_nonempty:
  assumes "context_free r"
  shows "ends r (p, U) \<noteq> [] \<longleftrightarrow> (\<exists>w V. U = w @ V \<and> matches r w)"
proof
  assume "ends r (p, U) \<noteq> []"
  then obtain q qs where "ends r (p, U) = q # qs" by (cases "ends r (p, U)") auto
  then have "(fst q, snd q) \<in> set (ends r (p, U))" by simp
  from ends_specD1 [OF ends_matches [OF assms] this]
  show "\<exists>w V. U = w @ V \<and> matches r w" by blast
next
  assume "\<exists>w V. U = w @ V \<and> matches r w"
  then obtain w V where "U = w @ V" "matches r w" by blast
  with ends_specD2 [OF ends_matches [OF assms], of w p V]
  have "(after p w, V) \<in> set (ends r (p, U))" by simp
  then show "ends r (p, U) \<noteq> []" by auto
qed

lemma search_matches:
  assumes "context_free r"
  shows "search r (p, U) \<longleftrightarrow> (\<exists>a w b. U = a @ w @ b \<and> matches r w)"
proof (induction U arbitrary: p)
  case Nil
  show ?case by (simp add: ends_nonempty [OF assms])
next
  case (Cons u us)
  show ?case
  proof
    assume "search r (p, u # us)"
    then consider "ends r (p, u # us) \<noteq> []" | "search r (Some u, us)"
      by (auto split: if_splits)
    then show "\<exists>a w b. u # us = a @ w @ b \<and> matches r w"
    proof cases
      case 1
      then obtain w V where "u # us = w @ V" "matches r w"
        using ends_nonempty [OF assms] by blast
      then have "u # us = [] @ w @ V \<and> matches r w" by simp
      then show ?thesis by blast
    next
      case 2
      then obtain a w b where "us = a @ w @ b" "matches r w" using Cons.IH by blast
      then have "u # us = (u # a) @ w @ b \<and> matches r w" by simp
      then show ?thesis by blast
    qed
  next
    assume "\<exists>a w b. u # us = a @ w @ b \<and> matches r w"
    then obtain a w b where e: "u # us = a @ w @ b" "matches r w" by blast
    show "search r (p, u # us)"
    proof (cases a)
      case Nil
      with e have "ends r (p, u # us) \<noteq> []" using ends_nonempty [OF assms, of p "u # us"] by auto
      then show ?thesis by simp
    next
      case (Cons a0 a')
      with e have "us = a' @ w @ b" by simp
      with e(2) have "search r (Some u, us)" using Cons.IH by blast
      then show ?thesis by simp
    qed
  qed
qed

lemma test_matches:
  "context_free r \<Longrightarrow> test r s \<longleftrightarrow> (\<exists>a w b. s = a @ w @ b \<and> matches r w)"
  by (simp add: test_def search_matches)

text \<open>
  Trimming keeps every match that begins and ends with a code unit that is not white
  space, and a match in the trimmed text is a match in the text.
\<close>

lemma word_not_space: "is_word u \<Longrightarrow> \<not> is_space u"
  unfolding is_word_def is_space_def word_le_nat_alt word_unat_eq_iff by simp arith

lemma solid_atom_accepts: "solid_atom a \<Longrightarrow> accepts a u \<Longrightarrow> \<not> is_space u"
  by (cases a) (auto simp: word_not_space list_all_iff)

lemma matches_edges:
  "matches r w \<Longrightarrow>
     (nonnull r \<longrightarrow> w \<noteq> [])
     \<and> (solid_start r \<longrightarrow> w \<noteq> [] \<longrightarrow> \<not> is_space (hd w))
     \<and> (solid_end r \<longrightarrow> w \<noteq> [] \<longrightarrow> \<not> is_space (last w))"
proof (induction rule: matches.induct)
  case (m_Atom a u)
  then show ?case by (auto dest: solid_atom_accepts)
qed (auto simp: hd_append last_append split: if_splits)

lemma test_nonempty:
  assumes "context_free r" "nonnull r" "test r s"
  shows "s \<noteq> []"
proof -
  from assms(1,3) obtain a w b where "s = a @ w @ b" "matches r w" by (auto simp: test_matches)
  with matches_edges [of r w] assms(2) show ?thesis by simp
qed

lemma trim_decomp: "\<exists>a b. s = a @ trim s @ b"
proof -
  let ?d = "dropWhile is_space s"
  have "rev (takeWhile is_space (rev ?d) @ dropWhile is_space (rev ?d)) = ?d"
    by (simp only: takeWhile_dropWhile_id rev_rev_ident)
  then have "rev (dropWhile is_space (rev ?d)) @ rev (takeWhile is_space (rev ?d)) = ?d"
    by (simp only: rev_append)
  then have "?d = trim s @ rev (takeWhile is_space (rev ?d))" by (simp only: trim_def)
  moreover have "s = takeWhile is_space s @ ?d" by simp
  ultimately have "s = takeWhile is_space s @ trim s @ rev (takeWhile is_space (rev ?d))"
    by simp
  then show ?thesis by blast
qed

lemma dropWhile_keeps:
  assumes "w \<noteq> []" "\<not> P (hd w)"
  shows "\<exists>a'. dropWhile P (a @ w @ b) = a' @ w @ b"
proof (cases "\<forall>x\<in>set a. P x")
  case True
  from assms obtain c cs where "w = c # cs" "\<not> P c" by (cases w) auto
  with True have "dropWhile P (a @ w @ b) = [] @ w @ b" by (simp add: dropWhile_append)
  then show ?thesis by blast
next
  case False
  then obtain x where "x \<in> set a" "\<not> P x" by blast
  then have "dropWhile P (a @ w @ b) = dropWhile P a @ w @ b" by (rule dropWhile_append1)
  then show ?thesis by blast
qed

lemma trim_keeps:
  assumes "w \<noteq> []" "\<not> is_space (hd w)" "\<not> is_space (last w)"
  shows "\<exists>a' b'. trim (a @ w @ b) = a' @ w @ b'"
proof -
  from dropWhile_keeps [of w is_space a b, OF assms(1,2)] obtain a' where
    a': "dropWhile is_space (a @ w @ b) = a' @ w @ b" by blast
  from assms have "rev w \<noteq> []" "\<not> is_space (hd (rev w))" by (simp_all add: hd_rev)
  from dropWhile_keeps [of "rev w" is_space "rev b" "rev a'", OF this] obtain b' where
    "dropWhile is_space (rev b @ rev w @ rev a') = b' @ rev w @ rev a'" by blast
  with a' have "trim (a @ w @ b) = a' @ w @ rev b'" by (simp add: trim_def)
  then show ?thesis by blast
qed

lemma test_of_trim:
  assumes "context_free r" "test r (trim s)"
  shows "test r s"
proof -
  from assms obtain a w b where t: "trim s = a @ w @ b" "matches r w"
    by (auto simp: test_matches)
  from trim_decomp [of s] obtain a0 b0 where "s = a0 @ trim s @ b0" by blast
  with t have "s = (a0 @ a) @ w @ (b @ b0)" by simp
  with t(2) show ?thesis unfolding test_matches [OF assms(1)] by blast
qed

lemma test_trim:
  assumes "trim_stable r" "test r s"
  shows "test r (trim s)"
proof -
  from assms(1) have cf: "context_free r" by (simp add: trim_stable_def)
  from assms(2) obtain a w b where t: "s = a @ w @ b" "matches r w"
    by (auto simp: test_matches [OF cf])
  from matches_edges [OF t(2)] assms(1)
  have "w \<noteq> []" "\<not> is_space (hd w)" "\<not> is_space (last w)" by (simp_all add: trim_stable_def)
  from trim_keeps [OF this, of a b] t(1) obtain a' b' where "trim s = a' @ w @ b'" by blast
  with t(2) show ?thesis unfolding test_matches [OF cf] by blast
qed

section \<open>The two passes of an analysis run\<close>

lemma fold_apply_rule:
  "fold (apply_rule ln n) rs errs =
     errs @ map (finding ln n) (filter (\<lambda>r. test (rule_regex r) ln) rs)"
  by (induction rs arbitrary: errs) (simp_all add: apply_rule_def finding_def)

lemma fold_lines:
  "fold (\<lambda>(index, ln) errs. fold (apply_rule ln (index + 1)) rs errs) ps errs
     = errs @ concat (map (line_findings rs) ps)"
  by (induction ps arbitrary: errs) (auto simp: fold_apply_rule line_findings_def)

lemma analyzeCodeByRules_eq:
  "analyzeCodeByRules lines language errors tips =
     (errors @ concat (map (line_findings (lang_rules language)) (enumerate 0 lines)), tips)"
  unfolding analyzeCodeByRules_def Let_def fold_lines lang_rules_def by (rule refl)

lemma fold_tips:
  "fold (\<lambda>(index, ln) ts. if length ln > 100 then ts @ [long_line_tip index ln] else ts) ps tips
     = tips @ map (\<lambda>(index, ln). long_line_tip index ln) (filter (\<lambda>(index, ln). length ln > 100) ps)"
  by (induction ps arbitrary: tips) auto

lemma analyzeGeneral_eq:
  "analyzeGeneral lines errors tips =
     (if has_loop (concat lines) then errors @ [loop_finding lines] else errors, tips @ long_tips lines)"
  by (simp add: analyzeGeneral_def fold_tips long_tips_def loop_finding_def Let_def)

lemma analyze_eq:
  "analyze lines language =
     (concat (map (line_findings (lang_rules language)) (enumerate 0 lines))
        @ (if has_loop (concat lines) then [loop_finding lines] else []),
      long_tips lines)"
  by (simp add: analyze_def analyzeCodeByRules_eq analyzeGeneral_eq)

lemma rules_never_logical: "r \<in> set (lang_rules language) \<Longrightarrow> rule_type r \<noteq> Logical"
  by (cases language) (auto simp: lang_rules_def rules_def loose_equality_rule_def)

lemma line_findings_not_logical:
  "e \<in> set (line_findings (lang_rules language) p) \<Longrightarrow> type e \<noteq> Logical"
  by (auto simp: line_findings_def finding_def dest: rules_never_logical)

lemma rule_findings_not_logical:
  "filter (\<lambda>e. type e = Logical) (concat (map (line_findings (lang_rules language)) ps)) = []"
  by (auto simp: filter_empty_conv dest: line_findings_not_logical)

lemma logical_findings:
  "filter (\<lambda>e. type e = Logical) (fst (analyze lines language)) =
     (if has_loop (concat lines) then [loop_finding lines] else [])"
  by (simp add: analyze_eq rule_findings_not_logical loop_finding_def)

section \<open>Line numbers of findings\<close>

text \<open>
  A finding of a per-language rule carries the 1-based number of its line. The finding of
  the generic loop check carries \<open>findIndex(...) + 1\<close>, which is a line number when some
  line contains one of the two literals and \<open>0\<close> otherwise.
\<close>

lemma rule_finding_line:
  assumes "e \<in> set (concat (map (line_findings rs) (enumerate 0 lines)))"
  shows "1 \<le> line e \<and> line e \<le> int (length lines)"
proof -
  from assms obtain p where p: "p \<in> set (enumerate 0 lines)" "e \<in> set (line_findings rs p)"
    by auto
  obtain i ln where i: "p = (i, ln)" by (cases p)
  with p(1) have "fst p < length lines" by (simp add: in_set_enumerate_eq)
  moreover from p(2) have "line e = int (fst p + 1)" by (auto simp: line_findings_def finding_def)
  ultimately show ?thesis by simp
qed

lemma loop_finding_line:
  "0 \<le> line (loop_finding lines) \<and> line (loop_finding lines) \<le> int (length lines)"
  using findIndex_from_range [of 0 has_loop lines] by (auto simp: loop_finding_def findIndex_def)

lemma loop_finding_line_found:
  "\<exists>l\<in>set lines. has_loop l \<Longrightarrow> 1 \<le> line (loop_finding lines)"
  using findIndex_found [of lines has_loop 0] by (simp add: loop_finding_def findIndex_def)

lemma finding_line_range:
  assumes "e \<in> set (fst (analyze lines language))"
  shows "0 \<le> line e \<and> line e \<le> int (length lines)"
    and "type e \<noteq> Logical \<or> (\<exists>l\<in>set lines. has_loop l) \<Longrightarrow> 1 \<le> line e"
proof -
  from assms consider
      (rule) "e \<in> set (concat (map (line_findings (lang_rules language)) (enumerate 0 lines)))"
    | (loop) "e = loop_finding lines"
    by (auto simp: analyze_eq split: if_splits)
  note c = this
  from c show "0 \<le> line e \<and> line e \<le> int (length lines)"
  proof cases
    case rule
    from rule_finding_line [OF rule] show ?thesis by simp
  next
    case loop
    then show ?thesis using loop_finding_line by simp
  qed
  assume a: "type e \<noteq> Logical \<or> (\<exists>l\<in>set lines. has_loop l)"
  from c show "1 \<le> line e"
  proof cases
    case rule
    from rule_finding_line [OF rule] show ?thesis by simp
  next
    case loop
    with a have "\<exists>l\<in>set lines. has_loop l" by (auto simp: loop_finding_def)
    then show ?thesis using loop loop_finding_line_found by simp
  qed
qed

text \<open>
  C1 (every finding has a line number between 1 and the number of lines). The text
  \<open>while(\<close>, newline, \<open>true)\<close> has two lines, neither of which contains
  \<open>while(true)\<close>, but their concatenation does: the run reports one finding, at line 0.
\<close>

theorem finding_line_zero:
  "map line (fst (analyze (split_nl (js ''while('' @ [0x0A] @ js ''true)''))
                          (detectLanguage (js ''while('' @ [0x0A] @ js ''true)'')))) = [0]
   \<and> split_nl (js ''while('' @ [0x0A] @ js ''true)'') = [js ''while('', js ''true)'']
   \<and> trim (js ''while('' @ [0x0A] @ js ''true)'') \<noteq> []"
  by code_simp

section \<open>The generic loop check\<close>

text \<open>
  C2: if the concatenation of the lines contains \<open>while(true)\<close> or \<open>for(;;)\<close>, the run
  yields exactly one finding of severity logical; its line number is that of the first
  line that contains one of the two literals, and 0 when no line does. If the
  concatenation contains neither, the run yields no finding of severity logical.
\<close>

theorem infinite_loop_finding:
  "(has_loop (concat lines) \<longrightarrow>
      (\<exists>e. filter (\<lambda>e. type e = Logical) (fst (analyze lines language)) = [e]
         \<and> (\<forall>i<length lines. has_loop (lines ! i) \<and> (\<forall>j<i. \<not> has_loop (lines ! j))
               \<longrightarrow> line e = int i + 1)
         \<and> ((\<forall>l\<in>set lines. \<not> has_loop l) \<longrightarrow> line e = 0)))
   \<and> (\<not> has_loop (concat lines) \<longrightarrow>
        filter (\<lambda>e. type e = Logical) (fst (analyze lines language)) = [])"
proof (intro conjI impI)
  assume h: "has_loop (concat lines)"
  have "filter (\<lambda>e. type e = Logical) (fst (analyze lines language)) = [loop_finding lines]"
    using h by (simp add: logical_findings)
  moreover have "\<forall>i<length lines. has_loop (lines ! i) \<and> (\<forall>j<i. \<not> has_loop (lines ! j))
       \<longrightarrow> line (loop_finding lines) = int i + 1"
    by (simp add: loop_finding_def findIndex_first)
  moreover have "(\<forall>l\<in>set lines. \<not> has_loop l) \<longrightarrow> line (loop_finding lines) = 0"
    by (simp add: loop_finding_def findIndex_none)
  ultimately show "\<exists>e. filter (\<lambda>e. type e = Logical) (fst (analyze lines language)) = [e]
         \<and> (\<forall>i<length lines. has_loop (lines ! i) \<and> (\<forall>j<i. \<not> has_loop (lines ! j))
               \<longrightarrow> line e = int i + 1)
         \<and> ((\<forall>l\<in>set lines. \<not> has_loop l) \<longrightarrow> line e = 0)"
    by blast
next
  assume "\<not> has_loop (concat lines)"
  then show "filter (\<lambda>e. type e = Logical) (fst (analyze lines language)) = []"
    by (simp add: logical_findings)
qed

theorem infinite_loop_finding_witness:
  "(\<exists>e. filter (\<lambda>e. type e = Logical)
           (fst (analyze [js ''a'', js ''while(true){}'', js ''b''] Java)) = [e] \<and> line e = 2)
   \<and> (\<exists>e. filter (\<lambda>e. type e = Logical)
           (fst (analyze [js ''while('', js ''true)''] Java)) = [e] \<and> line e = 0)
   \<and> filter (\<lambda>e. type e = Logical) (fst (analyze [js ''a'', js ''b''] Java)) = []"
proof (intro conjI)
  let ?A = "[js ''a'', js ''while(true){}'', js ''b'']"
  have a: "has_loop (concat ?A)" by code_simp
  have a0: "\<not> has_loop (?A ! 0)" by code_simp
  have a1: "has_loop (?A ! 1)" by code_simp
  from a infinite_loop_finding [of ?A Java]
  obtain e where e: "filter (\<lambda>e. type e = Logical) (fst (analyze ?A Java)) = [e]"
    and f: "\<forall>i<length ?A. has_loop (?A ! i) \<and> (\<forall>j<i. \<not> has_loop (?A ! j)) \<longrightarrow> line e = int i + 1"
    by blast
  have "(1::nat) < length ?A" by simp
  moreover have "\<forall>j<1::nat. \<not> has_loop (?A ! j)" using a0 by simp
  ultimately have "line e = int 1 + 1" using f a1 by blast
  with e show "\<exists>e. filter (\<lambda>e. type e = Logical) (fst (analyze ?A Java)) = [e] \<and> line e = 2"
    by simp
next
  let ?B = "[js ''while('', js ''true)'']"
  have b: "has_loop (concat ?B)" by code_simp
  have b0: "\<forall>l\<in>set ?B. \<not> has_loop l" by code_simp
  from b b0 infinite_loop_finding [of ?B Java]
  show "\<exists>e. filter (\<lambda>e. type e = Logical) (fst (analyze ?B Java)) = [e] \<and> line e = 0"
    by blast
next
  let ?C = "[js ''a'', js ''b'']"
  have "\<not> has_loop (concat ?C)" by code_simp
  with infinite_loop_finding [of ?C Java]
  show "filter (\<lambda>e. type e = Logical) (fst (analyze ?C Java)) = []" by blast
qed

section \<open>The detector\<close>

lemma first_match_Unknown:
  "(\<forall>p\<in>set ps. snd p \<noteq> Unknown) \<Longrightarrow>
     first_match ps t = Unknown \<longleftrightarrow> (\<forall>p\<in>set ps. \<not> test (fst p) t)"
  by (induction ps t rule: first_match.induct) auto

lemma patterns_known: "\<forall>p\<in>set patterns. snd p \<noteq> Unknown"
  by (simp add: patterns_def)

lemma trim_blank: "trim (js '''') = [] \<and> trim (js ''   '') = []"
  by (simp add: trim_def js_def is_space_def)

lemma first_match_wins:
  "i < length ps \<Longrightarrow> test (fst (ps ! i)) t \<Longrightarrow> (\<forall>j<i. \<not> test (fst (ps ! j)) t)
     \<Longrightarrow> first_match ps t = snd (ps ! i)"
proof (induction ps t arbitrary: i rule: first_match.induct)
  case (1 t)
  then show ?case by simp
next
  case (2 pattern language rest t)
  show ?case
  proof (cases i)
    case 0
    with "2.prems" show ?thesis by simp
  next
    case (Suc k)
    with "2.prems" have "\<not> test pattern t" by auto
    moreover have "first_match rest t = snd (rest ! k)"
      using "2.prems" Suc \<open>\<not> test pattern t\<close> by (intro "2.IH") auto
    ultimately show ?thesis using Suc by simp
  qed
qed

lemma const_matches: "test pat_JavaScript (js ''const x = 5'' @ rest)"
  by (simp add: test_def pat_JavaScript_def js_def lit_def is_space_def is_word_def)

lemma patterns_context_free: "\<forall>p\<in>set patterns. context_free (fst p) \<and> nonnull (fst p)"
  by (simp add: patterns_def pat_JavaScript_def pat_Python_def pat_C_def pat_Cpp_def
        pat_Java_def pat_HTML_def pat_CSS_def pat_CSharp_def pat_TypeScript_def lit_def)

lemma patterns_trim_stable: "\<forall>p\<in>set patterns. snd p \<noteq> HTML \<longrightarrow> trim_stable (fst p)"
  by (simp add: patterns_def pat_JavaScript_def pat_Python_def pat_C_def pat_Cpp_def
        pat_Java_def pat_CSS_def pat_CSharp_def pat_TypeScript_def lit_def trim_stable_def
        is_space_def js_def)

lemma detect_first_match:
  assumes i: "i < length patterns"
    and m: "test (fst (patterns ! i)) (trim code)"
    and n: "\<forall>j<i. \<not> test (fst (patterns ! j)) (trim code)"
  shows "detectLanguage code = snd (patterns ! i)"
proof -
  from i have "patterns ! i \<in> set patterns" by simp
  with patterns_context_free have "context_free (fst (patterns ! i))" "nonnull (fst (patterns ! i))"
    by blast+
  from test_nonempty [OF this m] have "trim code \<noteq> []" .
  with first_match_wins [OF i m n] show ?thesis by (simp add: detectLanguage_def)
qed

lemma detect_first_match_text:
  assumes i: "i < length patterns"
    and h: "snd (patterns ! i) \<noteq> HTML"
    and m: "test (fst (patterns ! i)) code"
    and n: "\<forall>j<i. \<not> test (fst (patterns ! j)) code"
  shows "detectLanguage code = snd (patterns ! i)"
proof (rule detect_first_match [OF i])
  from i have "patterns ! i \<in> set patterns" by simp
  with patterns_trim_stable h have "trim_stable (fst (patterns ! i))" by blast
  then show "test (fst (patterns ! i)) (trim code)" using m by (rule test_trim)
next
  show "\<forall>j<i. \<not> test (fst (patterns ! j)) (trim code)"
  proof (intro allI impI)
    fix j assume j: "j < i"
    with i have "patterns ! j \<in> set patterns" by simp
    with patterns_context_free have "context_free (fst (patterns ! j))" by blast
    from test_of_trim [OF this, of code] n j show "\<not> test (fst (patterns ! j)) (trim code)"
      by blast
  qed
qed

lemma no_match_text_Unknown:
  assumes "\<forall>p\<in>set patterns. \<not> test (fst p) code"
  shows "detectLanguage code = Unknown"
proof -
  have "\<forall>p\<in>set patterns. \<not> test (fst p) (trim code)"
  proof
    fix p assume p: "p \<in> set patterns"
    with patterns_context_free have "context_free (fst p)" by blast
    from test_of_trim [OF this, of code] assms p show "\<not> test (fst p) (trim code)" by blast
  qed
  then show ?thesis
    by (simp add: detectLanguage_def Let_def first_match_Unknown [OF patterns_known])
qed

text \<open>
  C3 (Unknown exactly when the trimmed text is empty or no pattern matches the text).
  The patterns are tested on the trimmed text, and trimming can remove the blank that
  the alternative \<^verbatim>\<open><div\s\<close> of the pattern of HTML needs: the text \<open><div\<close> followed
  by a blank is not empty when trimmed and is matched by the pattern of HTML, yet it is
  classified as Unknown.
\<close>

theorem detectLanguage_blank_counterexample:
  "trim (js ''<div '') \<noteq> [] \<and> (pat_HTML, HTML) \<in> set patterns
   \<and> test pat_HTML (js ''<div '') \<and> detectLanguage (js ''<div '') = Unknown"
  by code_simp

text \<open>
  C3, amended: \<open>detectLanguage\<close> returns Unknown when the trimmed text is empty (so on
  the empty text and on three blanks) and when no pattern of the list matches the text;
  it returns a language other than Unknown exactly when the trimmed text is not empty
  and some pattern matches the trimmed text.
\<close>

theorem detectLanguage_Unknown:
  "(trim code = [] \<longrightarrow> detectLanguage code = Unknown)
   \<and> ((\<forall>p\<in>set patterns. \<not> test (fst p) code) \<longrightarrow> detectLanguage code = Unknown)
   \<and> (detectLanguage code = Unknown \<longleftrightarrow>
        trim code = [] \<or> (\<forall>p\<in>set patterns. \<not> test (fst p) (trim code)))
   \<and> detectLanguage (js '''') = Unknown \<and> detectLanguage (js ''   '') = Unknown"
  using trim_blank no_match_text_Unknown [of code]
  by (simp add: detectLanguage_def Let_def first_match_Unknown [OF patterns_known])

theorem detectLanguage_Unknown_witness:
  "detectLanguage (js ''  '') = Unknown \<and> detectLanguage (js ''hello '') = Unknown
   \<and> detectLanguage (js ''hello'') = Unknown \<and> detectLanguage (js ''def f(x):'') \<noteq> Unknown"
proof (intro conjI)
  have "trim (js ''  '') = []" by code_simp
  with detectLanguage_Unknown [of "js ''  ''"] show "detectLanguage (js ''  '') = Unknown"
    by blast
next
  have "\<forall>p\<in>set patterns. \<not> test (fst p) (js ''hello '')" by code_simp
  with detectLanguage_Unknown [of "js ''hello ''"] show "detectLanguage (js ''hello '') = Unknown"
    by blast
next
  have "\<forall>p\<in>set patterns. \<not> test (fst p) (trim (js ''hello''))" by code_simp
  with detectLanguage_Unknown [of "js ''hello''"] show "detectLanguage (js ''hello'') = Unknown"
    by blast
next
  have "trim (js ''def f(x):'') \<noteq> []" by code_simp
  moreover have "(pat_Python, Python) \<in> set patterns" by (simp add: patterns_def)
  moreover have "test (fst (pat_Python, Python)) (trim (js ''def f(x):''))" by code_simp
  ultimately show "detectLanguage (js ''def f(x):'') \<noteq> Unknown"
    using detectLanguage_Unknown [of "js ''def f(x):''"] by blast
qed

text \<open>
  C4: the first pattern of the list that matches decides. This holds of the trimmed
  text, which is what the patterns are tested on, for every position of the list; it
  holds of the text as given for every pattern but that of HTML, whose match can lie in
  the white space that trimming removes. So a text whose first matching pattern is that
  of JavaScript is classified as JavaScript whatever later patterns match as well, and
  every text that begins with \<open>const x = 5\<close> is such a text.
\<close>

theorem detectLanguage_first_match_wins:
  "(i < length patterns \<and> test (fst (patterns ! i)) (trim code)
      \<and> (\<forall>j<i. \<not> test (fst (patterns ! j)) (trim code))
      \<longrightarrow> detectLanguage code = snd (patterns ! i))
   \<and> (i < length patterns \<and> snd (patterns ! i) \<noteq> HTML \<and> test (fst (patterns ! i)) code
      \<and> (\<forall>j<i. \<not> test (fst (patterns ! j)) code)
      \<longrightarrow> detectLanguage code = snd (patterns ! i))
   \<and> (test pat_JavaScript code \<longrightarrow> detectLanguage code = JavaScript)
   \<and> detectLanguage (js ''const x = 5'' @ rest) = JavaScript"
proof (intro conjI impI)
  assume "i < length patterns \<and> test (fst (patterns ! i)) (trim code)
      \<and> (\<forall>j<i. \<not> test (fst (patterns ! j)) (trim code))"
  then show "detectLanguage code = snd (patterns ! i)" using detect_first_match by blast
next
  assume "i < length patterns \<and> snd (patterns ! i) \<noteq> HTML \<and> test (fst (patterns ! i)) code
      \<and> (\<forall>j<i. \<not> test (fst (patterns ! j)) code)"
  then show "detectLanguage code = snd (patterns ! i)" using detect_first_match_text by blast
next
  assume "test pat_JavaScript code"
  with detect_first_match_text [of 0 code] show "detectLanguage code = JavaScript"
    by (simp add: patterns_def)
next
  have "test pat_JavaScript (js ''const x = 5'' @ rest)" by (rule const_matches)
  with detect_first_match_text [of 0 "js ''const x = 5'' @ rest"]
  show "detectLanguage (js ''const x = 5'' @ rest) = JavaScript"
    by (simp add: patterns_def)
qed

theorem detectLanguage_first_match_wins_witness:
  "detectLanguage (js ''#include <stdio.h>'') = C
   \<and> test pat_Cpp (js ''#include <stdio.h>'')
   \<and> detectLanguage (js ''const x = 5; <div class=a>'') = JavaScript
   \<and> test pat_HTML (js ''const x = 5; <div class=a>'')"
proof (intro conjI)
  let ?c = "js ''#include <stdio.h>''"
  have a: "(2::nat) < length patterns" "snd (patterns ! 2) \<noteq> HTML" "snd (patterns ! 2) = C"
    by (simp_all add: patterns_def)
  have b: "test (fst (patterns ! 2)) ?c" by code_simp
  have "\<not> test (fst (patterns ! 0)) ?c" "\<not> test (fst (patterns ! 1)) ?c" by code_simp+
  then have c: "\<forall>j<2. \<not> test (fst (patterns ! j)) ?c"
    by (auto simp: less_Suc_eq numeral_2_eq_2)
  from a b c detectLanguage_first_match_wins [of 2 ?c "[]"]
  show "detectLanguage ?c = C" by (simp del: One_nat_def)
  show "test pat_Cpp ?c" by code_simp
next
  let ?d = "js ''const x = 5; <div class=a>''"
  have "test pat_JavaScript ?d" by code_simp
  with detectLanguage_first_match_wins [of 0 ?d "[]"]
  show "detectLanguage ?d = JavaScript" by blast
  show "test pat_HTML ?d" by code_simp
qed

section \<open>The rule engine\<close>

text \<open>
  C5: on no lines at all a run returns no findings and no tips, for every language, and
  the rule table has an entry (a list, possibly empty) for every language.
\<close>

theorem analyze_empty:
  "analyze [] language = ([], []) \<and> (\<exists>rs. map_of rules language = Some rs)"
  by (cases language) (simp_all add: analyze_eq long_tips_def has_loop_def js_def rules_def)

theorem analyze_empty_witness:
  "analyze [] Java = ([], []) \<and> map_of rules Java = Some []"
  using analyze_empty [of Java] by (simp add: rules_def)

lemma match_from_search: "match_from r False p = None \<longleftrightarrow> \<not> search r p"
proof (induction r p rule: search.induct)
  case (1 r prev)
  then show ?case by (simp split: list.splits)
next
  case (2 r prev u us)
  then show ?case by (simp split: list.splits)
qed

lemma exec_test_flagless:
  "\<not> global R \<Longrightarrow> \<not> sticky R \<Longrightarrow> exec_test R s = (test (source R) s, R)"
  using match_from_search [of "source R" "(None, s)"]
  by (auto simp: exec_test_def pos_at_def test_def split: option.splits)

lemma apply_rules_st_flagless:
  "flagless objs \<Longrightarrow>
     apply_rules_st ln n objs errs = (fold (apply_rule ln n) (map snd objs) errs, objs)"
proof (induction objs arbitrary: errs)
  case Nil
  then show ?case by simp
next
  case (Cons o1 objs)
  obtain R r where o1: "o1 = (R, r)" by (cases o1)
  with Cons.prems have f: "\<not> global R" "\<not> sticky R" "source R = rule_regex r" "flagless objs"
    by (simp_all add: flagless_def)
  show ?case
    using Cons.IH [OF f(4)] f(3)
    by (simp add: o1 exec_test_flagless [OF f(1,2)] apply_rule_def finding_def)
qed

lemma scan_lines_st_flagless:
  "flagless objs \<Longrightarrow>
     scan_lines_st k lines objs errs =
       (fold (\<lambda>(index, ln) errs. fold (apply_rule ln (index + 1)) (map snd objs) errs)
          (enumerate k lines) errs, objs)"
  by (induction lines arbitrary: k errs) (simp_all add: apply_rules_st_flagless)

lemma rule_objects_at_lookup:
  "\<exists>objs. map_of (rule_objects_at li) language = Some objs \<and> flagless objs
     \<and> map snd objs = lang_rules language
     \<and> map (\<lambda>(l, rs). if l = language then (l, objs) else (l, rs)) (rule_objects_at li)
         = rule_objects_at li"
  by (cases language)
     (simp_all add: rule_objects_at_def rules_def lang_rules_def flagless_def regexp_literal_def
        loose_equality_rule_def)

lemma analyzeCodeByRules_st_eq:
  "analyzeCodeByRules_st lines language errors tips (rule_objects_at li) =
     (analyzeCodeByRules lines language errors tips, rule_objects_at li)"
proof -
  from rule_objects_at_lookup [of li language] obtain objs where
    o: "map_of (rule_objects_at li) language = Some objs" "flagless objs"
       "map snd objs = lang_rules language"
       "map (\<lambda>(l, rs). if l = language then (l, objs) else (l, rs)) (rule_objects_at li)
          = rule_objects_at li"
    by blast
  show ?thesis
    unfolding analyzeCodeByRules_st_def analyzeCodeByRules_def Let_def
    by (simp add: o scan_lines_st_flagless lang_rules_def [symmetric])
qed

text \<open>
  With the flag \<open>g\<close> the answer of \<open>test\<close> does depend on the state that an earlier
  call has left: the same call succeeds and then fails.
\<close>

lemma exec_test_global_state:
  "exec_test ((regexp_literal re_px)\<lparr>global := True\<rparr>) (js ''px'')
     = (True, (regexp_literal re_px)\<lparr>global := True, lastIndex := 2\<rparr>)
   \<and> exec_test ((regexp_literal re_px)\<lparr>global := True, lastIndex := 2\<rparr>) (js ''px'')
     = (False, (regexp_literal re_px)\<lparr>global := True, lastIndex := 0\<rparr>)"
  by (simp add: exec_test_def regexp_literal_def re_px_def js_def lit_def pos_at_def)

text \<open>
  C6: a run is a function of its lines and its language alone. Whatever \<open>lastIndex\<close>
  the shared objects of the rule table carry, the run returns what the state-free
  \<open>analyze\<close> returns and leaves the table as it found it, so a run after any other run
  returns what a run on the fresh table returns. The two passes only append to the
  arrays that they are given, and the timer callback stores the result of the run
  whatever state the component is in.
\<close>

theorem analyze_deterministic:
  "analyze_st lines language (rule_objects_at li) = (analyze lines language, rule_objects_at li)
   \<and> fst (analyze_st lines language (snd (analyze_st lines' language' (rule_objects_at li))))
       = fst (analyze_st lines language rule_objects)
   \<and> analyzeCodeByRules lines language errors tips
       = (errors @ fst (analyzeCodeByRules lines language [] []), tips)
   \<and> analyzeGeneral lines errors tips
       = (errors @ fst (analyzeGeneral lines [] []), tips @ snd (analyzeGeneral lines [] []))
   \<and> s_errors (on_timeout (code, language) s) = fst (analyze (split_nl code) language)
   \<and> s_tips (on_timeout (code, language) s) = snd (analyze (split_nl code) language)"
proof (intro conjI)
  show run: "analyze_st lines language (rule_objects_at li)
      = (analyze lines language, rule_objects_at li)" for lines language li
    by (simp add: analyze_st_def analyzeCodeByRules_st_eq analyze_def split: prod.splits)
  show "fst (analyze_st lines language (snd (analyze_st lines' language' (rule_objects_at li))))
      = fst (analyze_st lines language rule_objects)"
    by (simp add: run rule_objects_def)
  show "analyzeCodeByRules lines language errors tips
      = (errors @ fst (analyzeCodeByRules lines language [] []), tips)"
    by (simp add: analyzeCodeByRules_eq)
  show "analyzeGeneral lines errors tips
      = (errors @ fst (analyzeGeneral lines [] []), tips @ snd (analyzeGeneral lines [] []))"
    by (simp add: analyzeGeneral_eq)
  show "s_errors (on_timeout (code, language) s) = fst (analyze (split_nl code) language)"
    by (simp add: on_timeout_def split: prod.splits)
  show "s_tips (on_timeout (code, language) s) = snd (analyze (split_nl code) language)"
    by (simp add: on_timeout_def split: prod.splits)
qed

theorem analyze_deterministic_witness:
  "fst (analyze_st [js ''x == 5''] JavaScript (rule_objects_at (\<lambda>l k. 7)))
     = fst (analyze_st [js ''x == 5''] JavaScript rule_objects)
   \<and> snd (analyze_st [js ''x == 5''] JavaScript (rule_objects_at (\<lambda>l k. 7)))
     = rule_objects_at (\<lambda>l k. 7)"
proof -
  have a: "analyze_st [js ''x == 5''] JavaScript (rule_objects_at (\<lambda>l k. 7))
      = (analyze [js ''x == 5''] JavaScript, rule_objects_at (\<lambda>l k. 7))"
    by (rule analyze_deterministic [THEN conjunct1])
  have b: "analyze_st [js ''x == 5''] JavaScript (rule_objects_at (\<lambda>l k. 0))
      = (analyze [js ''x == 5''] JavaScript, rule_objects_at (\<lambda>l k. 0))"
    by (rule analyze_deterministic [THEN conjunct1])
  from a b show ?thesis by (simp only: rule_objects_def fst_conv snd_conv simp_thms)
qed

text \<open>
  C7: the single line \<open>x == 5\<close> under the rules of JavaScript gives exactly one finding,
  a warning whose suggestion is to use \<open>===\<close>.
\<close>

theorem loose_equality_finding:
  "analyze [js ''x == 5''] JavaScript =
     ([\<lparr>line = 1, message = js ''Loose equality (==) found.'',
        suggestion = js ''Use === for strict equality checks.'',
        type = Warning, codeSnippet = Some (js ''x == 5'')\<rparr>], [])"
  by code_simp

lemma long_tips_mem:
  "i < length lines \<Longrightarrow> 100 < length (lines ! i) \<Longrightarrow> long_line_tip i (lines ! i) \<in> set (long_tips lines)"
  unfolding long_tips_def
  by (force simp: in_set_enumerate_eq)

lemma long_tips_150:
  "long_tips [replicate 150 (of_char CHR ''a'')]
     = [js ''Line 1 is long (150 chars). Consider splitting.'']"
  by code_simp

text \<open>
  C8: every line of more than 100 code units gives a tip that names its 1-based line
  number and its length; a single line of 150 letters \<open>a\<close> gives exactly one tip, for
  line 1 and length 150, whatever the language.
\<close>

theorem long_line_tips:
  "(\<forall>i<length lines. 100 < length (lines ! i) \<longrightarrow>
       js ''Line '' @ show_nat (i + 1) @ js '' is long ('' @ show_nat (length (lines ! i))
         @ js '' chars). Consider splitting.'' \<in> set (snd (analyze lines language)))
   \<and> snd (analyze [replicate 150 (of_char CHR ''a'')] language)
       = [js ''Line 1 is long (150 chars). Consider splitting.'']"
  using long_tips_mem [of _ lines] long_tips_150
  by (simp add: analyze_eq long_line_tip_def)

theorem long_line_tips_witness:
  "js ''Line 2 is long (101 chars). Consider splitting.''
     \<in> set (snd (analyze [js ''ab'', replicate 101 (of_char CHR ''x'')] CSS))"
proof -
  let ?L = "[js ''ab'', replicate 101 (of_char CHR ''x'')]"
  have l: "(1::nat) < length ?L" by simp
  have n: "length (?L ! 1) = 101" by simp
  have t: "js ''Line '' @ show_nat (1 + 1) @ js '' is long ('' @ show_nat 101
         @ js '' chars). Consider splitting.'' = js ''Line 2 is long (101 chars). Consider splitting.''"
    by code_simp
  from long_line_tips [of ?L CSS]
  have "\<forall>i<length ?L. 100 < length (?L ! i) \<longrightarrow>
       js ''Line '' @ show_nat (i + 1) @ js '' is long ('' @ show_nat (length (?L ! i))
         @ js '' chars). Consider splitting.'' \<in> set (snd (analyze ?L CSS))"
    by blast
  with l have "100 < length (?L ! 1) \<longrightarrow>
       js ''Line '' @ show_nat (1 + 1) @ js '' is long ('' @ show_nat (length (?L ! 1))
         @ js '' chars). Consider splitting.'' \<in> set (snd (analyze ?L CSS))"
    by blast
  with n t show ?thesis by simp
qed

text \<open>
  C9: the tips of a run are the same for any two languages, since the per-language pass
  returns the tips it was given.
\<close>

theorem tips_language_independent:
  "snd (analyze lines L1) = snd (analyze lines L2)
   \<and> snd (analyzeCodeByRules lines L1 errors tips) = tips"
  by (simp add: analyze_eq analyzeCodeByRules_eq)

theorem tips_language_independent_witness:
  "snd (analyze [js ''x == 5''] JavaScript) = snd (analyze [js ''x == 5''] Python)"
  using tips_language_independent [of "[js ''x == 5'']" JavaScript Python] by blast

text \<open>
  C10: the line \<open>a === b\<close> under the rules of JavaScript gives the loose-equality
  warning: the pattern \<open>==[^=]\<close> fails at the first \<open>=\<close> and matches the last two
  followed by the blank.
\<close>

theorem strict_equality_flagged:
  "fst (analyze [js ''a === b''] JavaScript) =
     [\<lparr>line = 1, message = js ''Loose equality (==) found.'',
       suggestion = js ''Use === for strict equality checks.'',
       type = Warning, codeSnippet = Some (js ''a === b'')\<rparr>]
   \<and> ends re_loose_equality (Some (of_char CHR ''=''), js ''== b'') = [(Some (of_char CHR '' ''), js ''b'')]
   \<and> ends re_loose_equality (Some (of_char CHR '' ''), js ''=== b'') = []"
  by code_simp

end
